theory Spec2Isabelle
  imports Main "HOL-Library.Word"
begin

section \<open>Go values and the library functions the bootstrap code calls\<close>

text \<open>
  The development covers \<^verbatim>\<open>main.go\<close> of lf with the autocd integration: the export of
  the option struct into the process environment, the server check, the start-up
  dispatch of \<^verbatim>\<open>main\<close>, and the exit sequence of \<^verbatim>\<open>run\<close> as quoted in the
  integration plan.

  A Go \<^verbatim>\<open>string\<close> is a byte sequence, so it is a \<open>char list\<close> here. A Go \<^verbatim>\<open>int\<close> is taken
  at its 64-bit width (\<^verbatim>\<open>strconv.IntSize = 64\<close>): \<open>+\<close> wraps, \<open>sint\<close> reads the value.
\<close>

type_synonym go_int = "64 word"

subsection \<open>\<^verbatim>\<open>strconv.Itoa\<close> and \<^verbatim>\<open>strconv.FormatBool\<close>\<close>

definition digit_char :: "nat \<Rightarrow> char" where
  "digit_char d = ''0123456789'' ! d"

fun digits10 :: "nat \<Rightarrow> string" where
  "digits10 n = (if n < 10 then [digit_char n] else digits10 (n div 10) @ [digit_char (n mod 10)])"

declare digits10.simps [simp del]

text \<open>Decimal digits, most significant first, with a leading minus sign for a negative value.\<close>

definition Itoa :: "go_int \<Rightarrow> string" where
  "Itoa i = (if sint i < 0 then ''-'' @ digits10 (nat (- sint i)) else digits10 (nat (sint i)))"

definition FormatBool :: "bool \<Rightarrow> string" where
  "FormatBool b = (if b then ''true'' else ''false'')"

subsection \<open>\<^verbatim>\<open>strconv.Atoi\<close>, \<^verbatim>\<open>strconv.ParseBool\<close>, \<^verbatim>\<open>strings.Split\<close>\<close>

datatype num_error = ErrSyntax | ErrRange

definition digit_of :: "char \<Rightarrow> nat option" where
  "digit_of c = (let n = (of_char c :: nat) in if 48 \<le> n \<and> n \<le> 57 then Some (n - 48) else None)"

text \<open>The fast path of \<^verbatim>\<open>Atoi\<close> (inputs of 1 to 18 bytes): \<^verbatim>\<open>n = n*10 + int(ch)\<close>,
  a syntax error at the first byte that is not a digit.\<close>

fun atoi_digits :: "int \<Rightarrow> string \<Rightarrow> int option" where
  "atoi_digits n [] = Some n"
| "atoi_digits n (c # cs) =
     (case digit_of c of None \<Rightarrow> None | Some d \<Rightarrow> atoi_digits (n * 10 + int d) cs)"

definition atoi_fast :: "string \<Rightarrow> go_int \<times> num_error option" where
  "atoi_fast s0 =
     (let s = (if hd s0 = CHR ''-'' \<or> hd s0 = CHR ''+'' then tl s0 else s0) in
      if s = [] then (0, Some ErrSyntax)
      else case atoi_digits 0 s of
             None \<Rightarrow> (0, Some ErrSyntax)
           | Some n \<Rightarrow> (word_of_int (if hd s0 = CHR ''-'' then - n else n), None))"

text \<open>\<^verbatim>\<open>ParseUint(s, 10, 0)\<close>: the loop stops with a range error, and the largest
  unsigned value, as soon as the next digit would pass \<open>2^64 - 1\<close>.\<close>

definition maxUint64 :: nat where
  "maxUint64 = 2 ^ 64 - 1"

fun parseUint_loop :: "nat \<Rightarrow> string \<Rightarrow> nat \<times> num_error option" where
  "parseUint_loop n [] = (n, None)"
| "parseUint_loop n (c # cs) =
     (case digit_of c of
        None \<Rightarrow> (0, Some ErrSyntax)
      | Some d \<Rightarrow>
          if n \<ge> maxUint64 div 10 + 1 then (maxUint64, Some ErrRange)
          else let n1 = n * 10 + d in
               if n1 > maxUint64 then (maxUint64, Some ErrRange)
               else parseUint_loop n1 cs)"

definition ParseUint :: "string \<Rightarrow> nat \<times> num_error option" where
  "ParseUint s = (if s = [] then (0, Some ErrSyntax) else parseUint_loop 0 s)"

text \<open>\<^verbatim>\<open>ParseInt(s, 10, 0)\<close>: the sign is picked off, the magnitude is checked against
  \<open>2^63\<close>; a value out of range comes back as the nearest bound with \<open>ErrRange\<close>.\<close>

definition ParseInt :: "string \<Rightarrow> go_int \<times> num_error option" where
  "ParseInt s0 =
     (if s0 = [] then (0, Some ErrSyntax)
      else let neg = (hd s0 = CHR ''-'');
               s = (if hd s0 = CHR ''+'' \<or> hd s0 = CHR ''-'' then tl s0 else s0)
           in case ParseUint s of
                (un, Some ErrSyntax) \<Rightarrow> (0, Some ErrSyntax)
              | (un, _) \<Rightarrow>
                  if \<not> neg \<and> un \<ge> 2 ^ 63 then (word_of_int (2 ^ 63 - 1), Some ErrRange)
                  else if neg \<and> un > 2 ^ 63 then (word_of_int (- (2 ^ 63)), Some ErrRange)
                  else (word_of_int (if neg then - int un else int un), None))"

definition Atoi :: "string \<Rightarrow> go_int \<times> num_error option" where
  "Atoi s = (if 0 < length s \<and> length s < 19 then atoi_fast s else ParseInt s)"

definition ParseBool :: "string \<Rightarrow> bool option" where
  "ParseBool str =
     (if str \<in> set [''1'', ''t'', ''T'', ''TRUE'', ''true'', ''True''] then Some True
      else if str \<in> set [''0'', ''f'', ''F'', ''FALSE'', ''false'', ''False''] then Some False
      else None)"

text \<open>\<^verbatim>\<open>strings.Split(s, sep)\<close> for a one-byte separator: the pieces between the
  separators, so \<open>n\<close> separators give \<open>n + 1\<close> pieces and the empty string gives one
  empty piece.\<close>

fun split_from :: "char \<Rightarrow> string \<Rightarrow> string \<Rightarrow> string list" where
  "split_from sep piece [] = [piece]"
| "split_from sep piece (c # cs) =
     (if c = sep then piece # split_from sep [] cs else split_from sep (piece @ [c]) cs)"

definition Split :: "string \<Rightarrow> char \<Rightarrow> string list" where
  "Split s sep = split_from sep [] s"

text \<open>\<^verbatim>\<open>strings.Join(elems, sep)\<close>.\<close>

fun Join :: "string list \<Rightarrow> string \<Rightarrow> string" where
  "Join [] sep = []"
| "Join [a] sep = a"
| "Join (a # b # rest) sep = a @ sep @ Join (b # rest) sep"

subsection \<open>\<^verbatim>\<open>filepath.Clean\<close> and \<^verbatim>\<open>filepath.Dir\<close> (Unix)\<close>




subsection \<open>\<^verbatim>\<open>reflect.Value\<close>\<close>

text \<open>
  What \<^verbatim>\<open>fieldToString\<close> can tell apart in a \<^verbatim>\<open>reflect.Value\<close>: the kinds \<^verbatim>\<open>Int\<close>,
  \<^verbatim>\<open>Bool\<close>, \<^verbatim>\<open>Slice\<close> and \<^verbatim>\<open>String\<close>, and every other kind (maps, structs, sized
  integers, ...), of which only the type's name is used: \<^verbatim>\<open>Value.String\<close> on a value that
  is not a string returns \<^verbatim>\<open>"<T Value>"\<close> for its type \<^verbatim>\<open>T\<close>.
\<close>

datatype rvalue =
    RInt go_int
  | RBool bool
  | RSlice "rvalue list"
  | RString string
  | ROther string

section \<open>The environment exporter\<close>

subsection \<open>\<^verbatim>\<open>fieldToString\<close>\<close>

text \<open>
  The \<^verbatim>\<open>default\<close> case is \<^verbatim>\<open>field.String()\<close>: the string itself, or \<^verbatim>\<open>"<T Value>"\<close>.
  The slice case is the source's loop: \<open>slice_loop i value es\<close> is the state before
  iteration \<open>i\<close>, with \<open>es\<close> the elements still to come; the first iteration assigns, the
  later ones append \<^verbatim>\<open>":"\<close> and the element.
\<close>

fun fieldToString :: "rvalue \<Rightarrow> string"
  and slice_loop :: "nat \<Rightarrow> string \<Rightarrow> rvalue list \<Rightarrow> string" where
  "fieldToString (RInt n) = Itoa n"
| "fieldToString (RBool b) = FormatBool b"
| "fieldToString (RSlice es) = slice_loop 0 [] es"
| "fieldToString (RString s) = s"
| "fieldToString (ROther t) = ''<'' @ t @ '' Value>''"
| "slice_loop i value [] = value"
| "slice_loop i value (e # es) =
     slice_loop (Suc i) (if i = 0 then fieldToString e else value @ '':'' @ fieldToString e) es"

subsection \<open>\<^verbatim>\<open>getOptsMap\<close>\<close>

text \<open>
  The struct type of \<^verbatim>\<open>gOpts\<close> is declared outside \<^verbatim>\<open>main.go\<close>, so the struct is a
  parameter: \<open>struct_fields\<close> lists what reflection yields, the name and the value of each field
  in declaration order, and \<open>user\<close> is the map that the selector \<^verbatim>\<open>gOpts.user\<close> reads.

  A Go map is a finite partial function. \<^verbatim>\<open>range\<close> over a map visits each entry once in
  an order the language leaves open, and which may differ from one loop to the next: the
  sequence a loop happens to see is an argument of the model, and \<open>go_range m kvs\<close> says
  that \<open>kvs\<close> is one of the sequences \<^verbatim>\<open>range m\<close> can produce.
\<close>

record gOpts_t =
  struct_fields :: "(string \<times> rvalue) list"
  user :: "string \<rightharpoonup> string"

definition go_range :: "('k \<rightharpoonup> 'v) \<Rightarrow> ('k \<times> 'v) list \<Rightarrow> bool" where
  "go_range m kvs \<longleftrightarrow> distinct (map fst kvs) \<and> map_of kvs = m"

type_synonym strmap = "string \<rightharpoonup> string"

text \<open>The body of the inner loop: \<^verbatim>\<open>opts[name+"_"+key] = value\<close>.\<close>

definition set_user_opt :: "string \<Rightarrow> string \<times> string \<Rightarrow> strmap \<Rightarrow> strmap" where
  "set_user_opt name kv opts = opts(name @ ''_'' @ fst kv \<mapsto> snd kv)"

fun getOptsMap_loop :: "(string \<times> string) list \<Rightarrow> (string \<times> rvalue) list \<Rightarrow> strmap \<Rightarrow> strmap" where
  "getOptsMap_loop ukvs [] opts = opts"
| "getOptsMap_loop ukvs ((fname, v) # rest) opts =
     (let name = ''lf_'' @ fname in
      if name = ''lf_nkeys'' \<or> name = ''lf_vkeys'' \<or> name = ''lf_cmdkeys'' \<or> name = ''lf_cmds''
      then getOptsMap_loop ukvs rest opts
      else if name = ''lf_user''
      then getOptsMap_loop ukvs rest
             (fold (set_user_opt name) ukvs opts)
      else getOptsMap_loop ukvs rest (opts(name \<mapsto> fieldToString v)))"

text \<open>\<open>ukvs\<close> is the sequence in which \<^verbatim>\<open>range gOpts.user\<close> yields the user options.\<close>

definition getOptsMap :: "gOpts_t \<Rightarrow> (string \<times> string) list \<Rightarrow> strmap" where
  "getOptsMap g ukvs = getOptsMap_loop ukvs (struct_fields g) Map.empty"

subsection \<open>\<^verbatim>\<open>os.Setenv\<close>, \<^verbatim>\<open>os.Getenv\<close> and \<^verbatim>\<open>exportOpts\<close>\<close>

text \<open>
  The process environment is a map from names to values. \<^verbatim>\<open>os.Setenv\<close> refuses (with
  \<^verbatim>\<open>EINVAL\<close>, which the callers here ignore) an empty name, a name with \<^verbatim>\<open>=\<close> or a NUL
  byte, and a value with a NUL byte, and leaves the environment as it was.
\<close>

definition setenv_ok :: "string \<Rightarrow> string \<Rightarrow> bool" where
  "setenv_ok key value \<longleftrightarrow>
     key \<noteq> [] \<and> CHR ''='' \<notin> set key \<and> CHR 0x00 \<notin> set key \<and> CHR 0x00 \<notin> set value"

definition Setenv :: "string \<Rightarrow> string \<Rightarrow> strmap \<Rightarrow> strmap" where
  "Setenv key value env = (if setenv_ok key value then env(key \<mapsto> value) else env)"

definition Getenv :: "strmap \<Rightarrow> string \<Rightarrow> string" where
  "Getenv env key = (case env key of None \<Rightarrow> [] | Some v \<Rightarrow> v)"

text \<open>\<open>kvs\<close> is the sequence in which \<^verbatim>\<open>range getOptsMap()\<close> yields the entries; it is
  also the sequence of the \<^verbatim>\<open>os.Setenv\<close> calls.\<close>

definition exportOpts :: "(string \<times> string) list \<Rightarrow> strmap \<Rightarrow> strmap" where
  "exportOpts kvs env = fold (\<lambda>(key, value). Setenv key value) kvs env"


section \<open>The process and its surroundings\<close>

text \<open>
  What the bootstrap code reads and changes outside its own variables: the directory
  entries, the endpoints that accept a connection, the working directory, the process
  environment, and the sequence of actions the process has performed.

  \<^item> \<open>files\<close>: the paths at which a directory entry exists;
  \<^item> \<open>stat_err\<close>: the paths at which \<^verbatim>\<open>os.Stat\<close> fails for a reason other than absence
    (a permission, a broken path component);
  \<^item> \<open>listening\<close>: the (network, address) pairs at which \<^verbatim>\<open>net.Dial\<close> succeeds;
  \<^item> \<open>can_spawn\<close>: whether \<^verbatim>\<open>cmd.Start()\<close> succeeds;
  \<^item> \<open>cwd\<close>: the answer of \<^verbatim>\<open>os.Getwd\<close>, \<open>None\<close> for an error;
  \<^item> \<open>environ\<close>: the process environment;
  \<^item> \<open>events\<close>: connection attempts, removals, process starts and messages, in order.
\<close>

datatype event =
    Dialed string string
  | Removed string
  | CmdStart "string list"
  | Logged string
  | Stderr string

record world =
  files :: "string set"
  stat_err :: "string set"
  listening :: "(string \<times> string) set"
  can_spawn :: bool
  cwd :: "string option"
  environ :: strmap
  events :: "event list"

definition emit :: "event \<Rightarrow> world \<Rightarrow> world" where
  "emit e w = w\<lparr>events := events w @ [e]\<rparr>"

datatype stat_res = StatOK | StatNotExist | StatErr

text \<open>\<^verbatim>\<open>os.IsNotExist(err)\<close> holds exactly for \<open>StatNotExist\<close>.\<close>

definition os_Stat :: "world \<Rightarrow> string \<Rightarrow> stat_res" where
  "os_Stat w path =
     (if path \<in> stat_err w then StatErr else if path \<in> files w then StatOK else StatNotExist)"

definition net_Dial :: "string \<Rightarrow> string \<Rightarrow> world \<Rightarrow> bool \<times> world" where
  "net_Dial prot addr w = ((prot, addr) \<in> listening w, emit (Dialed prot addr) w)"

text \<open>\<^verbatim>\<open>os.Remove\<close> takes the entry away; its own failure, which the caller ignores, is
  not modelled.\<close>

definition os_Remove :: "string \<Rightarrow> world \<Rightarrow> world" where
  "os_Remove path w = emit (Removed path) (w\<lparr>files := files w - {path}\<rparr>)"

definition os_Setenv :: "string \<Rightarrow> string \<Rightarrow> world \<Rightarrow> world" where
  "os_Setenv key value w = w\<lparr>environ := Setenv key value (environ w)\<rparr>"

section \<open>Nesting level and session variables\<close>

text \<open>
  The package variable \<^verbatim>\<open>envLevel\<close> is read from the inherited environment before
  \<^verbatim>\<open>main\<close> runs, and \<^verbatim>\<open>init\<close> replaces an empty value by \<^verbatim>\<open>"0"\<close>.
\<close>

definition init_envLevel :: "strmap \<Rightarrow> string" where
  "init_envLevel env = (let envLevel = Getenv env ''LF_LEVEL'' in
                        if envLevel = [] then ''0'' else envLevel)"

text \<open>
  The variables \<^verbatim>\<open>exportEnvVars\<close> reads. \<^verbatim>\<open>envOpener\<close>, \<^verbatim>\<open>envEditor\<close>, \<^verbatim>\<open>envPager\<close> and
  \<^verbatim>\<open>envShell\<close> are declared outside \<^verbatim>\<open>main.go\<close> and are parameters.
\<close>

record globals =
  gClientID :: go_int
  envOpener :: string
  envEditor :: string
  envPager :: string
  envShell :: string
  envLevel :: string

definition exportEnvVars :: "globals \<Rightarrow> world \<Rightarrow> world" where
  "exportEnvVars g w =
     (let w1 = os_Setenv ''id'' (Itoa (gClientID g)) w;
          w2 = os_Setenv ''OPENER'' (envOpener g) w1;
          w3 = os_Setenv ''EDITOR'' (envEditor g) w2;
          w4 = os_Setenv ''PAGER'' (envPager g) w3;
          w5 = os_Setenv ''SHELL'' (envShell g) w4;
          (dir, w6) = (case cwd w5 of
                         Some d \<Rightarrow> (d, w5)
                       | None \<Rightarrow> ([], emit (Stderr ''getting current directory'') w5));
          w7 = os_Setenv ''OLDPWD'' dir w6;
          (level, err) = Atoi (envLevel g);
          w8 = (case err of None \<Rightarrow> w7 | Some e \<Rightarrow> emit (Logged ''reading lf level'') w7);
          level' = level + 1
      in os_Setenv ''LF_LEVEL'' (Itoa level') w8)"

section \<open>The server check\<close>

definition startServer :: "string \<Rightarrow> world \<Rightarrow> world" where
  "startServer argv0 w =
     (let w1 = emit (CmdStart [argv0, ''-server'']) w in
      if can_spawn w then w1 else emit (Logged ''starting server'') w1)"

definition checkServer :: "string \<Rightarrow> string \<Rightarrow> string \<Rightarrow> world \<Rightarrow> world" where
  "checkServer gSocketProt gSocketPath argv0 w =
     (if gSocketProt = ''unix'' then
        (if os_Stat w gSocketPath = StatNotExist then startServer argv0 w
         else (case net_Dial gSocketProt gSocketPath w of
                 (connected, w1) \<Rightarrow>
                   if \<not> connected then startServer argv0 (os_Remove gSocketPath w1)
                   else w1))
      else
        (case net_Dial gSocketProt gSocketPath w of
           (connected, w1) \<Rightarrow> if \<not> connected then startServer argv0 w1 else w1))"

text \<open>
  The specification's Liveness Prober, in its words: for a unix-domain endpoint an absent
  socket file is \<open>Dead\<close>, a file with a failing connect is \<open>StaleArtifact\<close>, a succeeding
  connect is \<open>Alive\<close>; for any other endpoint a failing connect is \<open>Dead\<close>. It reads the
  surroundings and changes nothing.
\<close>

datatype liveness = Alive | Dead | StaleArtifact

definition probe_spec :: "string \<Rightarrow> string \<Rightarrow> world \<Rightarrow> liveness" where
  "probe_spec prot addr w =
     (if prot = ''unix'' then
        (if os_Stat w addr = StatNotExist then Dead
         else if (prot, addr) \<notin> listening w then StaleArtifact
         else Alive)
      else if (prot, addr) \<notin> listening w then Dead else Alive)"

section \<open>Start-up: \<^verbatim>\<open>main\<close>\<close>

text \<open>
  \<^verbatim>\<open>flag.Parse\<close> works on the default flag set, whose error handling is
  \<^verbatim>\<open>ExitOnError\<close>: a command line it rejects ends the process with status 2, a request for
  help with status 0; otherwise the flags and the positional arguments are set.
\<close>

record flags =
  showDoc :: bool
  showVersion :: bool
  serverMode :: bool
  singleMode :: bool
  remoteCmd :: string
  cpuprofile :: string
  memprofile :: string
  logPath :: string
  args :: "string list"

datatype cmdline = BadFlags | HelpFlag | Parsed flags

text \<open>
  What is declared or decided outside \<^verbatim>\<open>main.go\<close>: the default endpoint, the program
  names, and the answers of the calls whose failure \<^verbatim>\<open>main\<close> turns into \<^verbatim>\<open>log.Fatal\<close>
  (exit status 1). The functions \<^verbatim>\<open>printVersion\<close>, \<^verbatim>\<open>remote\<close>, \<^verbatim>\<open>serve\<close> and \<^verbatim>\<open>run\<close> are
  taken to return to \<^verbatim>\<open>main\<close>; the end of \<^verbatim>\<open>run\<close> has a section of its own below.
\<close>

record build =
  gDefaultSocketProt :: string
  gDefaultSocketPath :: string
  argv0 :: string
  pid :: go_int
  opener :: string
  editor :: string
  pager :: string
  shell :: string
  abs_ok :: bool
  cpu_create_ok :: bool
  cpu_start_ok :: bool
  remote_ok :: bool
  mem_create_ok :: bool
  mem_write_ok :: bool

datatype result = Exited int | Finished

text \<open>The \<^verbatim>\<open>default\<close> case of the mode switch: the client.\<close>

definition client :: "build \<Rightarrow> flags \<Rightarrow> string \<Rightarrow> world \<Rightarrow> result \<times> world" where
  "client b f level w =
     (let w1 = (if \<not> singleMode f
                then checkServer (gDefaultSocketProt b) (gDefaultSocketPath b) (argv0 b) w
                else w)
      in case args f of
           [] \<Rightarrow> (case cwd w1 of
                    None \<Rightarrow> (Exited 2, emit (Stderr ''getting current directory'') w1)
                  | Some d \<Rightarrow>
                      (Finished,
                       exportEnvVars \<lparr>gClientID = pid b, envOpener = opener b,
                         envEditor = editor b, envPager = pager b, envShell = shell b,
                         envLevel = level\<rparr> w1))
         | [a] \<Rightarrow>
             (Finished,
              exportEnvVars \<lparr>gClientID = pid b, envOpener = opener b,
                envEditor = editor b, envPager = pager b, envShell = shell b,
                envLevel = level\<rparr> w1)
         | _ \<Rightarrow> (Exited 2, emit (Stderr ''only single file or directory is allowed'') w1))"

definition dispatch :: "build \<Rightarrow> flags \<Rightarrow> string \<Rightarrow> world \<Rightarrow> result \<times> world" where
  "dispatch b f level w =
     (if showDoc f then (Finished, w)
      else if showVersion f then (Finished, w)
      else if remoteCmd f \<noteq> [] then
        (if remote_ok b then (Finished, w) else (Exited 1, emit (Logged ''remote command'') w))
      else if serverMode f then (Finished, w)
      else client b f level w)"

definition write_memprofile :: "build \<Rightarrow> flags \<Rightarrow> world \<Rightarrow> result \<times> world" where
  "write_memprofile b f w =
     (if memprofile f \<noteq> [] then
        (if \<not> mem_create_ok b then (Exited 1, emit (Logged ''could not create memory profile'') w)
         else if \<not> mem_write_ok b then (Exited 1, emit (Logged ''could not write memory profile'') w)
         else (Finished, w))
      else (Finished, w))"

text \<open>\<open>main b c w\<close>: the whole of \<^verbatim>\<open>main\<close> for the command line \<open>c\<close>, started in \<open>w\<close>.
  \<open>Finished\<close> is the return from \<^verbatim>\<open>main\<close>, which ends the process with status 0.\<close>

definition main :: "build \<Rightarrow> cmdline \<Rightarrow> world \<Rightarrow> result \<times> world" where
  "main b c w =
     (case c of
        BadFlags \<Rightarrow> (Exited 2, w)
      | HelpFlag \<Rightarrow> (Exited 0, w)
      | Parsed f \<Rightarrow>
          if logPath f \<noteq> [] \<and> \<not> abs_ok b then (Exited 1, emit (Logged ''getting log path'') w)
          else if cpuprofile f \<noteq> [] \<and> \<not> cpu_create_ok b
          then (Exited 1, emit (Logged ''could not create CPU profile'') w)
          else if cpuprofile f \<noteq> [] \<and> \<not> cpu_start_ok b
          then (Exited 1, emit (Logged ''could not start CPU profile'') w)
          else (case dispatch b f (init_envLevel (environ w)) w of
                  (Exited n, w1) \<Rightarrow> (Exited n, w1)
                | (Finished, w1) \<Rightarrow> write_memprofile b f w1))"

definition exit_status :: "result \<Rightarrow> int" where
  "exit_status r = (case r of Exited n \<Rightarrow> n | Finished \<Rightarrow> 0)"


section \<open>The end of \<^verbatim>\<open>run\<close>: exit handoff\<close>

text \<open>
  \<^verbatim>\<open>client.go\<close> is not among the sources. The end of \<^verbatim>\<open>run\<close> is translated from the
  code quoted in \<^verbatim>\<open>AUTOCD_INTEGRATION_PLAN.md\<close> (lines 72 to 95): with \<^verbatim>\<open>gAutocd\<close> the
  target is the current directory's path, replaced by \<^verbatim>\<open>filepath.Dir\<close> of it when
  \<^verbatim>\<open>os.Stat\<close> succeeds and does not report a directory, and the process is handed to
  \<^verbatim>\<open>autocd.ExitWithDirectoryOrFallback\<close> with the callback \<^verbatim>\<open>os.Exit(0)\<close>; without
  \<^verbatim>\<open>gAutocd\<close> the last directory is written when a path for it was given, and \<^verbatim>\<open>run\<close>
  goes on with the exit logic that the quotation leaves out.

  The end of the process is a \<open>handoff\<close>: replaced by a shell in a directory, ended with a
  status, or \<^verbatim>\<open>run\<close> returning to \<^verbatim>\<open>main\<close>.
\<close>

datatype file_kind = Regular | Directory | OtherKind






section \<open>Entry names\<close>

text \<open>The names under which \<^verbatim>\<open>getOptsMap\<close> files a field and a user option, and the
  four field names it skips.\<close>

definition opt_name :: "string \<Rightarrow> string" where
  "opt_name f = ''lf_'' @ f"

definition user_name :: "string \<Rightarrow> string" where
  "user_name key = ''lf_user_'' @ key"

definition skipped :: "string \<Rightarrow> bool" where
  "skipped f \<longleftrightarrow> f = ''nkeys'' \<or> f = ''vkeys'' \<or> f = ''cmdkeys'' \<or> f = ''cmds''"

section \<open>Notions used in the statements\<close>

text \<open>
  \<open>new_events w w'\<close> is what the process did between \<open>w\<close> and \<open>w'\<close>. \<open>startup_fatal\<close>
  collects the three failures that \<^verbatim>\<open>main\<close> answers with \<^verbatim>\<open>log.Fatalf\<close> before the mode
  switch, and \<open>client_mode\<close> is the \<^verbatim>\<open>default\<close> case of that switch: none of \<^verbatim>\<open>-doc\<close>,
  \<^verbatim>\<open>-version\<close>, \<^verbatim>\<open>-remote\<close>, \<^verbatim>\<open>-server\<close>.
\<close>

definition new_events :: "world \<Rightarrow> world \<Rightarrow> event list" where
  "new_events w w' = drop (length (events w)) (events w')"

definition startup_fatal :: "build \<Rightarrow> flags \<Rightarrow> bool" where
  "startup_fatal b f \<longleftrightarrow>
     (logPath f \<noteq> [] \<and> \<not> abs_ok b)
     \<or> (cpuprofile f \<noteq> [] \<and> \<not> cpu_create_ok b)
     \<or> (cpuprofile f \<noteq> [] \<and> \<not> cpu_start_ok b)"

definition client_mode :: "flags \<Rightarrow> bool" where
  "client_mode f \<longleftrightarrow> \<not> showDoc f \<and> \<not> showVersion f \<and> remoteCmd f = [] \<and> \<not> serverMode f"

section \<open>Auxiliary facts\<close>

lemma digits10_small: "n < 10 \<Longrightarrow> digits10 n = [digit_char n]"
  by (subst digits10.simps) simp

lemma digits10_big: "10 \<le> n \<Longrightarrow> digits10 n = digits10 (n div 10) @ [digit_char (n mod 10)]"
  by (subst digits10.simps) simp

lemmas Itoa_eval = Itoa_def digits10_small digits10_big digit_char_def

lemmas Atoi_eval = Atoi_def atoi_fast_def ParseInt_def ParseUint_def maxUint64_def digit_of_def

lemma digits10_set: "set (digits10 n) \<subseteq> set ''0123456789''"
proof (induction n rule: digits10.induct)
  case (1 n)
  have d: "digit_char k \<in> set ''0123456789''" if "k < 10" for k
    unfolding digit_char_def using that nth_mem [of k "''0123456789''"] by simp
  show ?case
  proof (cases "n < 10")
    case True
    then show ?thesis using d [of n] by (subst digits10.simps) simp
  next
    case False
    then have "set (digits10 (n div 10)) \<subseteq> set ''0123456789''" using 1 by simp
    moreover have "digit_char (n mod 10) \<in> set ''0123456789''" by (rule d) simp
    ultimately show ?thesis using False by (subst digits10.simps) simp
  qed
qed

lemma digits10_avoids:
  assumes "c \<notin> set ''0123456789''"
  shows "c \<notin> set (digits10 n)"
  using assms digits10_set [of n] by blast

lemma Itoa_no_colon: "CHR '':'' \<notin> set (Itoa i)"
proof -
  have "CHR '':'' \<notin> set ''0123456789''" by simp
  then have "CHR '':'' \<notin> set (digits10 n)" for n by (rule digits10_avoids)
  then show ?thesis by (simp add: Itoa_def)
qed

lemma Itoa_no_nul: "CHR 0x00 \<notin> set (Itoa i)"
proof -
  have "CHR 0x00 \<notin> set ''0123456789''" by simp
  then have "CHR 0x00 \<notin> set (digits10 n)" for n by (rule digits10_avoids)
  then show ?thesis by (simp add: Itoa_def)
qed

lemma Join_Cons: "Join (w # ws) [c] = w @ concat (map ((#) c) ws)"
  by (induction ws arbitrary: w) simp_all

lemma slice_loop_later:
  "0 < i \<Longrightarrow> slice_loop i value es = value @ concat (map (\<lambda>e. CHR '':'' # fieldToString e) es)"
  by (induction es arbitrary: i "value") simp_all

lemma fieldToString_slice:
  "fieldToString (RSlice es) = Join (map fieldToString es) '':''"
  by (cases es) (simp_all add: Join_Cons slice_loop_later comp_def)

lemma split_from_nosep:
  "sep \<notin> set w \<Longrightarrow> split_from sep piece (w @ rest) = split_from sep (piece @ w) rest"
  by (induction w arbitrary: piece) auto

lemma split_from_join:
  "sep \<notin> set w \<Longrightarrow> \<forall>x\<in>set ws. sep \<notin> set x \<Longrightarrow>
   split_from sep piece (w @ concat (map ((#) sep) ws)) = (piece @ w) # ws"
proof (induction ws arbitrary: w piece)
  case Nil
  then show ?case using split_from_nosep [of sep w piece "[]"] by simp
next
  case (Cons x xs)
  have "split_from sep piece (w @ concat (map ((#) sep) (x # xs)))
        = split_from sep (piece @ w) (sep # (x @ concat (map ((#) sep) xs)))"
    using Cons.prems(1) split_from_nosep [of sep w piece] by simp
  also have "\<dots> = (piece @ w) # split_from sep [] (x @ concat (map ((#) sep) xs))"
    by simp
  also have "\<dots> = (piece @ w) # x # xs"
    using Cons.IH [of x "[]"] Cons.prems(2) by simp
  finally show ?case .
qed

lemma Split_Join:
  "ws \<noteq> [] \<Longrightarrow> \<forall>w\<in>set ws. sep \<notin> set w \<Longrightarrow> Split (Join ws [sep]) sep = ws"
  by (cases ws) (simp_all add: Split_def Join_Cons split_from_join [where piece = "[]", simplified])

lemma exportOpts_Cons: "exportOpts ((a, b) # kvs) env = exportOpts kvs (Setenv a b env)"
  by (simp add: exportOpts_def)

lemma exportOpts_apply:
  "distinct (map fst kvs) \<Longrightarrow>
   exportOpts kvs env k =
     (case map_of kvs k of None \<Rightarrow> env k
      | Some v \<Rightarrow> if setenv_ok k v then Some v else env k)"
proof (induction kvs arbitrary: env)
  case Nil
  then show ?case by (simp add: exportOpts_def)
next
  case (Cons kv kvs)
  obtain a b where kv: "kv = (a, b)" by (cases kv)
  have notin: "map_of kvs a = None"
    using Cons.prems kv by (simp add: map_of_eq_None_iff)
  have ih: "exportOpts kvs (Setenv a b env) k =
     (case map_of kvs k of None \<Rightarrow> Setenv a b env k
      | Some v \<Rightarrow> if setenv_ok k v then Some v else Setenv a b env k)"
    by (rule Cons.IH) (use Cons.prems in simp)
  show ?case
  proof (cases "k = a")
    case True
    then show ?thesis unfolding kv exportOpts_Cons ih using notin by (simp add: Setenv_def)
  next
    case False
    then have "Setenv a b env k = env k" by (simp add: Setenv_def)
    then show ?thesis unfolding kv exportOpts_Cons ih using False
      by (simp split: option.splits)
  qed
qed

lemma go_range_set:
  "go_range m kvs \<Longrightarrow> set kvs = {(k, v). m k = Some v}"
  by (auto simp: go_range_def)

lemma exportOpts_order:
  assumes "go_range m kvs1" and "go_range m kvs2"
  shows "exportOpts kvs1 env = exportOpts kvs2 env"
proof
  fix k
  show "exportOpts kvs1 env k = exportOpts kvs2 env k"
    using assms by (simp add: exportOpts_apply go_range_def)
qed

lemma set_user_opt_name:
  "set_user_opt ''lf_user'' (a, b) opts = opts(user_name a \<mapsto> b)"
  by (simp add: set_user_opt_def user_name_def)

lemma user_name_inj [simp]: "user_name a = user_name b \<longleftrightarrow> a = b"
  by (simp add: user_name_def)

lemma user_fold_other:
  "k \<notin> user_name ` fst ` set ukvs \<Longrightarrow> fold (set_user_opt ''lf_user'') ukvs opts k = opts k"
proof (induction ukvs arbitrary: opts)
  case Nil
  then show ?case by simp
next
  case (Cons kv ukvs)
  obtain a b where kv: "kv = (a, b)" by (cases kv)
  have "fold (set_user_opt ''lf_user'') (kv # ukvs) opts k
      = fold (set_user_opt ''lf_user'') ukvs (opts(user_name a \<mapsto> b)) k"
    unfolding kv by (simp only: fold_simps set_user_opt_name)
  also have "\<dots> = (opts(user_name a \<mapsto> b)) k"
    by (rule Cons.IH) (use Cons.prems in simp)
  also have "\<dots> = opts k"
    using Cons.prems kv by auto
  finally show ?case .
qed

lemma user_fold_apply:
  "distinct (map fst ukvs) \<Longrightarrow>
   fold (set_user_opt ''lf_user'') ukvs opts (user_name key) =
     (case map_of ukvs key of None \<Rightarrow> opts (user_name key) | Some v \<Rightarrow> Some v)"
proof (induction ukvs arbitrary: opts)
  case Nil
  then show ?case by simp
next
  case (Cons kv ukvs)
  obtain a b where kv: "kv = (a, b)" by (cases kv)
  have notin: "map_of ukvs a = None"
    using Cons.prems kv by (simp add: map_of_eq_None_iff)
  have step: "fold (set_user_opt ''lf_user'') (kv # ukvs) opts (user_name key)
            = fold (set_user_opt ''lf_user'') ukvs (opts(user_name a \<mapsto> b)) (user_name key)"
    unfolding kv by (simp only: fold_simps set_user_opt_name)
  have ih: "fold (set_user_opt ''lf_user'') ukvs (opts(user_name a \<mapsto> b)) (user_name key) =
     (case map_of ukvs key of None \<Rightarrow> (opts(user_name a \<mapsto> b)) (user_name key) | Some v \<Rightarrow> Some v)"
    by (rule Cons.IH) (use Cons.prems in simp)
  show ?case
  proof (cases "key = a")
    case True
    then show ?thesis unfolding step ih using notin kv by simp
  next
    case False
    then show ?thesis unfolding step ih using kv by (simp split: option.splits)
  qed
qed

lemma user_fold_order:
  assumes "go_range u ukvs1" and "go_range u ukvs2"
  shows "fold (set_user_opt ''lf_user'') ukvs1 opts = fold (set_user_opt ''lf_user'') ukvs2 opts"
proof
  fix k
  have dom_eq: "fst ` set ukvs1 = fst ` set ukvs2"
    using assms go_range_set [of u ukvs1] go_range_set [of u ukvs2] by simp
  have maps: "map_of ukvs1 = map_of ukvs2" and d1: "distinct (map fst ukvs1)"
    and d2: "distinct (map fst ukvs2)"
    using assms by (simp_all add: go_range_def)
  show "fold (set_user_opt ''lf_user'') ukvs1 opts k = fold (set_user_opt ''lf_user'') ukvs2 opts k"
  proof (cases "k \<in> user_name ` fst ` set ukvs1")
    case True
    then obtain key where "k = user_name key" by auto
    then show ?thesis by (simp only: user_fold_apply [OF d1] user_fold_apply [OF d2] maps)
  next
    case False
    then show ?thesis using dom_eq by (simp add: user_fold_other)
  qed
qed

lemma loop_skip:
  "skipped f \<Longrightarrow> getOptsMap_loop ukvs ((f, v) # rest) opts = getOptsMap_loop ukvs rest opts"
  by (auto simp: skipped_def)

lemma loop_user:
  "getOptsMap_loop ukvs ((''user'', v) # rest) opts
   = getOptsMap_loop ukvs rest (fold (set_user_opt ''lf_user'') ukvs opts)"
  by simp

lemma loop_field:
  "\<not> skipped f \<Longrightarrow> f \<noteq> ''user'' \<Longrightarrow>
   getOptsMap_loop ukvs ((f, v) # rest) opts
   = getOptsMap_loop ukvs rest (opts(opt_name f \<mapsto> fieldToString v))"
  by (simp add: skipped_def opt_name_def)

lemma getOptsMap_loop_order:
  assumes "go_range u ukvs1" and "go_range u ukvs2"
  shows "getOptsMap_loop ukvs1 fs opts = getOptsMap_loop ukvs2 fs opts"
proof (induction fs arbitrary: opts)
  case Nil
  then show ?case by simp
next
  case (Cons fv fs)
  obtain f v where fv: "fv = (f, v)" by (cases fv)
  consider "skipped f" | "f = ''user''" | "\<not> skipped f" "f \<noteq> ''user''" by blast
  then show ?case
  proof cases
    case 1
    then show ?thesis unfolding fv by (simp only: loop_skip Cons.IH)
  next
    case 2
    then show ?thesis unfolding fv
      by (simp only: loop_user Cons.IH user_fold_order [OF assms])
  next
    case 3
    show ?thesis unfolding fv loop_field [OF 3] by (rule Cons.IH)
  qed
qed

lemma opt_name_inj [simp]: "opt_name a = opt_name b \<longleftrightarrow> a = b"
  by (simp add: opt_name_def)

lemma getOptsMap_loop_other:
  "k \<notin> opt_name ` {f \<in> fst ` set fs. \<not> skipped f \<and> f \<noteq> ''user''} \<Longrightarrow>
   (''user'' \<in> fst ` set fs \<longrightarrow> k \<notin> user_name ` fst ` set ukvs) \<Longrightarrow>
   getOptsMap_loop ukvs fs opts k = opts k"
proof (induction fs arbitrary: opts)
  case Nil
  then show ?case by simp
next
  case (Cons fv fs)
  obtain f v where fv: "fv = (f, v)" by (cases fv)
  have rest1: "k \<notin> opt_name ` {f \<in> fst ` set fs. \<not> skipped f \<and> f \<noteq> ''user''}"
    using Cons.prems(1) by auto
  have rest2: "''user'' \<in> fst ` set fs \<longrightarrow> k \<notin> user_name ` fst ` set ukvs"
    using Cons.prems(2) by auto
  have ih: "getOptsMap_loop ukvs fs opts' k = opts' k" for opts'
    using rest1 rest2 by (rule Cons.IH)
  consider "skipped f" | "f = ''user''" | "\<not> skipped f" "f \<noteq> ''user''" by blast
  then show ?case
  proof cases
    case 1
    then show ?thesis unfolding fv by (simp only: loop_skip ih)
  next
    case 2
    then have "k \<notin> user_name ` fst ` set ukvs" using Cons.prems(2) fv by simp
    then show ?thesis unfolding fv 2 loop_user ih by (rule user_fold_other)
  next
    case 3
    then have "k \<noteq> opt_name f" using Cons.prems(1) fv by auto
    then show ?thesis unfolding fv loop_field [OF 3] ih by simp
  qed
qed

lemma getOptsMap_loop_field:
  "distinct (map fst fs) \<Longrightarrow> (f, v) \<in> set fs \<Longrightarrow> \<not> skipped f \<Longrightarrow> f \<noteq> ''user'' \<Longrightarrow>
   opt_name f \<notin> user_name ` fst ` set ukvs \<Longrightarrow>
   getOptsMap_loop ukvs fs opts (opt_name f) = Some (fieldToString v)"
proof (induction fs arbitrary: opts)
  case Nil
  then show ?case by simp
next
  case (Cons gw fs)
  obtain g w where gw: "gw = (g, w)" by (cases gw)
  show ?case
  proof (cases "gw = (f, v)")
    case True
    have "f \<notin> fst ` set fs" using Cons.prems(1) True by simp
    then have "opt_name f \<notin> opt_name ` {f \<in> fst ` set fs. \<not> skipped f \<and> f \<noteq> ''user''}"
      by force
    then have "getOptsMap_loop ukvs fs (opts(opt_name f \<mapsto> fieldToString v)) (opt_name f)
             = (opts(opt_name f \<mapsto> fieldToString v)) (opt_name f)"
      using Cons.prems(5) by (intro getOptsMap_loop_other) simp_all
    then show ?thesis unfolding True loop_field [OF Cons.prems(3,4)] by simp
  next
    case False
    then have mem: "(f, v) \<in> set fs" using Cons.prems(2) by simp
    have dist: "distinct (map fst fs)" using Cons.prems(1) by simp
    have ih: "getOptsMap_loop ukvs fs opts' (opt_name f) = Some (fieldToString v)" for opts'
      using dist mem Cons.prems(3,4,5) by (rule Cons.IH)
    consider "skipped g" | "g = ''user''" | "\<not> skipped g" "g \<noteq> ''user''" by blast
    then show ?thesis
    proof cases
      case 1
      then show ?thesis unfolding gw by (simp only: loop_skip ih)
    next
      case 2
      show ?thesis unfolding gw 2 loop_user by (rule ih)
    next
      case 3
      show ?thesis unfolding gw loop_field [OF 3] by (rule ih)
    qed
  qed
qed



lemma exportOpts_eq:
  assumes "go_range m kvs" and "\<And>k v. m k = Some v \<Longrightarrow> setenv_ok k v"
  shows "exportOpts kvs env = env ++ m"
proof
  fix k
  have d: "distinct (map fst kvs)" and m: "map_of kvs = m"
    using assms(1) by (simp_all add: go_range_def)
  show "exportOpts kvs env k = (env ++ m) k"
    unfolding exportOpts_apply [OF d] m using assms(2) [of k]
    by (cases "m k") (simp_all add: map_add_def)
qed

lemma scenario_opts:
  "getOptsMap \<lparr>struct_fields = [(''tabstop'', RInt 8), (''hidden'', RBool False),
       (''ratios'', RSlice [RInt 1, RInt 2, RInt 3])], user = Map.empty\<rparr> []
   = [''lf_tabstop'' \<mapsto> ''8'', ''lf_hidden'' \<mapsto> ''false'', ''lf_ratios'' \<mapsto> ''1:2:3'']"
  by (simp add: getOptsMap_def FormatBool_def Itoa_eval)

lemma go_range_length:
  assumes "go_range m k1" and "go_range m k2"
  shows "length k1 = length k2"
proof -
  have "distinct k1" and "distinct k2"
    using assms by (auto simp: go_range_def distinct_map)
  moreover have "set k1 = set k2"
    using assms by (simp add: go_range_set)
  ultimately show ?thesis by (metis distinct_card)
qed


lemma opt_name_alt: "''lf_'' @ f = opt_name f"
  by (simp add: opt_name_def)

lemma opt_name_user_name: "opt_name f = user_name key \<longleftrightarrow> f = ''user_'' @ key"
  by (auto simp: opt_name_def user_name_def)

lemma go_range_dom: "go_range m kvs \<Longrightarrow> fst ` set kvs = dom m"
  using dom_map_of_conv_image_fst [of kvs] by (simp add: go_range_def)

lemma digit_of_digit_char: "d < 10 \<Longrightarrow> digit_of (digit_char d) = Some d"
proof -
  assume "d < 10"
  then consider "d = 0" | "d = 1" | "d = 2" | "d = 3" | "d = 4" | "d = 5" | "d = 6" | "d = 7"
    | "d = 8" | "d = 9" by atomize_elim arith
  then show ?thesis by cases (simp_all add: digit_of_def digit_char_def)
qed

lemma atoi_digits_append:
  "atoi_digits a (xs @ ys) = (case atoi_digits a xs of None \<Rightarrow> None | Some v \<Rightarrow> atoi_digits v ys)"
  by (induction xs arbitrary: a) (simp_all split: option.splits)

lemma atoi_digits_digits10:
  "atoi_digits a (digits10 m) = Some (a * 10 ^ length (digits10 m) + int m)"
proof (induction m arbitrary: a rule: digits10.induct)
  case (1 n)
  show ?case
  proof (cases "n < 10")
    case True
    then show ?thesis by (simp add: digits10_small digit_of_digit_char)
  next
    case False
    then have big: "digits10 n = digits10 (n div 10) @ [digit_char (n mod 10)]"
      by (simp add: digits10_big)
    have ih: "atoi_digits a (digits10 (n div 10))
        = Some (a * 10 ^ length (digits10 (n div 10)) + int (n div 10))"
      using False by (intro "1.IH") simp
    have d: "digit_of (digit_char (n mod 10)) = Some (n mod 10)"
      by (rule digit_of_digit_char) simp
    have "int (n div 10) * 10 + int (n mod 10) = int n"
      by (simp add: zmod_int zdiv_int)
    then show ?thesis
      unfolding big atoi_digits_append ih by (simp add: d algebra_simps)
  qed
qed

lemma parseUint_loop_append:
  "parseUint_loop a xs = (v, None) \<Longrightarrow> parseUint_loop a (xs @ ys) = parseUint_loop v ys"
proof (induction xs arbitrary: a)
  case Nil
  then show ?case by simp
next
  case (Cons c cs)
  obtain d where d: "digit_of c = Some d"
    using Cons.prems by (cases "digit_of c") simp_all
  have c1: "\<not> a \<ge> maxUint64 div 10 + 1"
    using Cons.prems d by (cases "a \<ge> maxUint64 div 10 + 1") simp_all
  have c2: "\<not> a * 10 + d > maxUint64"
    using Cons.prems d c1 by (cases "a * 10 + d > maxUint64") (simp_all add: Let_def)
  have step: "parseUint_loop a (c # zs) = parseUint_loop (a * 10 + d) zs" for zs
    using d c1 c2 by (simp add: Let_def)
  have "parseUint_loop (a * 10 + d) cs = (v, None)"
    using Cons.prems unfolding step .
  then have "parseUint_loop (a * 10 + d) (cs @ ys) = parseUint_loop v ys"
    by (rule Cons.IH)
  then show ?case using step [of "cs @ ys"] by simp
qed

lemma below_cutoff:
  fixes v d M :: nat
  assumes "v * 10 + d \<le> M"
  shows "v \<le> M" and "v < M div 10 + 1"
proof -
  have m: "v * 10 \<le> M" using assms by linarith
  then show "v \<le> M" by linarith
  from m have "v \<le> M div 10" by (simp add: less_eq_div_iff_mult_less_eq)
  then show "v < M div 10 + 1" by simp
qed

lemma parseUint_loop_digits10:
  "a * 10 ^ length (digits10 m) + m \<le> maxUint64 \<Longrightarrow>
   parseUint_loop a (digits10 m) = (a * 10 ^ length (digits10 m) + m, None)"
proof (induction m arbitrary: a rule: digits10.induct)
  case (1 n)
  show ?case
  proof (cases "n < 10")
    case True
    then have s: "digits10 n = [digit_char n]" by (simp add: digits10_small)
    have b: "a * 10 + n \<le> maxUint64" using "1.prems" unfolding s by simp
    then have "a < maxUint64 div 10 + 1" by (rule below_cutoff(2))
    then show ?thesis
      unfolding s using True b by (simp add: digit_of_digit_char Let_def)
  next
    case False
    then have big: "digits10 n = digits10 (n div 10) @ [digit_char (n mod 10)]"
      by (simp add: digits10_big)
    let ?k = "length (digits10 (n div 10))"
    let ?v = "a * 10 ^ ?k + n div 10"
    have len: "length (digits10 n) = Suc ?k"
      by (subst big) simp
    have "n div 10 * 10 + n mod 10 = n" by simp
    then have eq: "?v * 10 + n mod 10 = a * 10 ^ length (digits10 n) + n"
      unfolding len by (simp add: algebra_simps)
    have bound: "?v * 10 + n mod 10 \<le> maxUint64" unfolding eq by (rule "1.prems")
    note vb = below_cutoff(1) [OF bound] and cut = below_cutoff(2) [OF bound]
    have ih: "parseUint_loop a (digits10 (n div 10)) = (?v, None)"
      using False vb by (intro "1.IH") simp_all
    have d: "digit_of (digit_char (n mod 10)) = Some (n mod 10)"
      by (rule digit_of_digit_char) simp
    have last: "parseUint_loop ?v [digit_char (n mod 10)] = (?v * 10 + n mod 10, None)"
      using cut bound by (simp add: d Let_def)
    have "parseUint_loop a (digits10 n) = parseUint_loop ?v [digit_char (n mod 10)]"
      by (subst big) (rule parseUint_loop_append [OF ih])
    then show ?thesis unfolding last eq .
  qed
qed

lemma digits10_nonempty: "digits10 m \<noteq> []"
  by (cases "m < 10") (simp_all add: digits10_small digits10_big)

lemma hd_digits10: "hd (digits10 m) \<noteq> CHR ''-''" "hd (digits10 m) \<noteq> CHR ''+''"
proof -
  have "hd (digits10 m) \<in> set (digits10 m)" using digits10_nonempty by simp
  then have "hd (digits10 m) \<in> set ''0123456789''" using digits10_set by blast
  then show "hd (digits10 m) \<noteq> CHR ''-''" "hd (digits10 m) \<noteq> CHR ''+''" by auto
qed

lemma Atoi_digits10:
  assumes "m < 2 ^ 63"
  shows "Atoi (digits10 m) = (word_of_int (int m), None)"
proof (cases "0 < length (digits10 m) \<and> length (digits10 m) < 19")
  case True
  then show ?thesis
    by (simp add: Atoi_def atoi_fast_def hd_digits10 digits10_nonempty atoi_digits_digits10)
next
  case False
  have "0 * 10 ^ length (digits10 m) + m \<le> maxUint64"
    using assms by (simp add: maxUint64_def)
  then have u: "parseUint_loop 0 (digits10 m) = (m, None)"
    using parseUint_loop_digits10 [of 0 m] by simp
  show ?thesis
    using False assms
    by (simp add: Atoi_def ParseInt_def ParseUint_def hd_digits10 digits10_nonempty u)
qed

lemma Atoi_minus_digits10:
  assumes "m \<le> 2 ^ 63"
  shows "Atoi (CHR ''-'' # digits10 m) = (word_of_int (- int m), None)"
proof (cases "0 < length (CHR ''-'' # digits10 m) \<and> length (CHR ''-'' # digits10 m) < 19")
  case True
  then show ?thesis
    by (simp add: Atoi_def atoi_fast_def digits10_nonempty atoi_digits_digits10)
next
  case False
  have "0 * 10 ^ length (digits10 m) + m \<le> maxUint64"
    using assms by (simp add: maxUint64_def)
  then have u: "parseUint_loop 0 (digits10 m) = (m, None)"
    using parseUint_loop_digits10 [of 0 m] by simp
  show ?thesis
    using False assms
    by (simp add: Atoi_def ParseInt_def ParseUint_def digits10_nonempty u)
qed

lemma Atoi_Itoa: "Atoi (Itoa n) = (n, None)"
proof (cases "sint n < 0")
  case True
  have "- (2 ^ 63) \<le> sint n" using sint_ge [of n] by simp
  then have "nat (- sint n) \<le> 2 ^ 63" by (simp add: nat_le_iff)
  then have "Atoi (CHR ''-'' # digits10 (nat (- sint n))) = (word_of_int (- int (nat (- sint n))), None)"
    by (rule Atoi_minus_digits10)
  then show ?thesis using True by (simp add: Itoa_def)
next
  case False
  have "sint n < 2 ^ 63" using sint_lt [of n] by simp
  then have "nat (sint n) < 2 ^ 63" using False by (simp add: nat_less_iff)
  then have "Atoi (digits10 (nat (sint n))) = (word_of_int (int (nat (sint n))), None)"
    by (rule Atoi_digits10)
  then show ?thesis using False by (simp add: Itoa_def)
qed

lemma environ_os_Setenv:
  "environ (os_Setenv key val w) = Setenv key val (environ w)"
  by (simp add: os_Setenv_def)

lemma exportEnvVars_level:
  "environ (exportEnvVars g w) ''LF_LEVEL'' = Some (Itoa (fst (Atoi (envLevel g)) + 1))"
proof -
  have ok: "setenv_ok ''LF_LEVEL'' (Itoa i)" for i
    by (simp add: setenv_ok_def Itoa_no_nul)
  show ?thesis
    by (simp add: exportEnvVars_def Let_def environ_os_Setenv Setenv_def ok
        split: prod.splits option.splits)
qed

lemma init_envLevel_Some:
  "env ''LF_LEVEL'' = Some s \<Longrightarrow> s \<noteq> [] \<Longrightarrow> init_envLevel env = s"
  by (simp add: init_envLevel_def Getenv_def)

lemma init_envLevel_None:
  "env ''LF_LEVEL'' = None \<Longrightarrow> init_envLevel env = ''0''"
  by (simp add: init_envLevel_def Getenv_def)

lemma Atoi_empty: "Atoi [] = (0, Some ErrSyntax)"
  by (simp add: Atoi_def ParseInt_def)

lemma go_int_succ:
  fixes n :: go_int
  assumes "sint n < 2 ^ 63 - 1"
  shows "sint (n + 1) = sint n + 1"
proof -
  have lo: "- (2 ^ 63) \<le> sint n" using sint_ge [of n] by simp
  have "sint (n + 1) = signed_take_bit 63 (sint n + 1)"
    by (simp add: sint_word_ariths)
  also have "\<dots> = sint n + 1"
    using lo assms by (simp add: signed_take_bit_int_eq_self)
  finally show ?thesis .
qed

lemma emit_simps [simp]:
  "files (emit e w) = files w" "stat_err (emit e w) = stat_err w"
  "listening (emit e w) = listening w" "can_spawn (emit e w) = can_spawn w"
  "cwd (emit e w) = cwd w" "environ (emit e w) = environ w"
  "events (emit e w) = events w @ [e]"
  by (simp_all add: emit_def)

lemma startServer_simps [simp]:
  "files (startServer a w) = files w" "stat_err (startServer a w) = stat_err w"
  "listening (startServer a w) = listening w" "can_spawn (startServer a w) = can_spawn w"
  "cwd (startServer a w) = cwd w" "environ (startServer a w) = environ w"
  "events (startServer a w) = events w @ CmdStart [a, ''-server'']
       # (if can_spawn w then [] else [Logged ''starting server''])"
  by (simp_all add: startServer_def Let_def)

lemma os_Remove_simps [simp]:
  "files (os_Remove p w) = files w - {p}" "stat_err (os_Remove p w) = stat_err w"
  "listening (os_Remove p w) = listening w" "can_spawn (os_Remove p w) = can_spawn w"
  "cwd (os_Remove p w) = cwd w" "environ (os_Remove p w) = environ w"
  "events (os_Remove p w) = events w @ [Removed p]"
  by (simp_all add: os_Remove_def)

lemma checkServer_absent:
  "prot = ''unix'' \<Longrightarrow> os_Stat w path = StatNotExist \<Longrightarrow>
   checkServer prot path a w = startServer a w"
  by (simp add: checkServer_def)





lemma checkServer_probe:
  "checkServer prot path a w =
     (case probe_spec prot path w of
        Dead \<Rightarrow> startServer a (if prot = ''unix'' then w else emit (Dialed prot path) w)
      | StaleArtifact \<Rightarrow> startServer a (os_Remove path (emit (Dialed prot path) w))
      | Alive \<Rightarrow> emit (Dialed prot path) w)"
  by (simp add: checkServer_def probe_spec_def net_Dial_def)

lemma cwd_checkServer [simp]: "cwd (checkServer prot path a w) = cwd w"
  by (cases "probe_spec prot path w") (simp_all add: checkServer_probe)

lemma client_fst:
  "fst (client b f lvl w) =
     (if 1 < length (args f) \<or> (args f = [] \<and> cwd w = None) then Exited 2 else Finished)"
proof (cases "args f")
  case Nil
  then show ?thesis by (simp add: client_def Let_def split: option.splits)
next
  case (Cons a rest)
  then show ?thesis by (cases rest) (simp_all add: client_def Let_def)
qed

lemma dispatch_fst:
  "fst (dispatch b f lvl w) = Exited 2 \<longleftrightarrow>
     client_mode f \<and> (1 < length (args f) \<or> (args f = [] \<and> cwd w = None))"
  by (simp add: dispatch_def client_mode_def client_fst)

lemma write_memprofile_fst: "fst (write_memprofile b f w) \<noteq> Exited 2"
  by (simp add: write_memprofile_def)

lemma main_Parsed:
  "fst (main b (Parsed f) w) = Exited 2 \<longleftrightarrow>
     \<not> startup_fatal b f \<and> client_mode f
     \<and> (1 < length (args f) \<or> (args f = [] \<and> cwd w = None))"
proof (cases "startup_fatal b f")
  case True
  then show ?thesis by (auto simp: main_def startup_fatal_def)
next
  case False
  obtain r w1 where d: "dispatch b f (init_envLevel (environ w)) w = (r, w1)"
    by (cases "dispatch b f (init_envLevel (environ w)) w")
  from False have n1: "\<not> (logPath f \<noteq> [] \<and> \<not> abs_ok b)"
    and n2: "\<not> (cpuprofile f \<noteq> [] \<and> \<not> cpu_create_ok b)"
    and n3: "\<not> (cpuprofile f \<noteq> [] \<and> \<not> cpu_start_ok b)"
    unfolding startup_fatal_def by blast+
  have m: "main b (Parsed f) w =
      (case (r, w1) of (Exited n, w1) \<Rightarrow> (Exited n, w1)
       | (Finished, w1) \<Rightarrow> write_memprofile b f w1)"
    unfolding main_def d [symmetric] by (simp only: cmdline.case n1 n2 n3 if_False)
  have "fst (main b (Parsed f) w) = Exited 2 \<longleftrightarrow> r = Exited 2"
    unfolding m using write_memprofile_fst [of b f w1] by (cases r) simp_all
  moreover have "r = Exited 2 \<longleftrightarrow>
      client_mode f \<and> (1 < length (args f) \<or> (args f = [] \<and> cwd w = None))"
    using dispatch_fst [of b f "init_envLevel (environ w)" w] d by simp
  ultimately show ?thesis using False by simp
qed


section \<open>Lists and the delimiter\<close>

text \<open>
  C1, as stated, fails. A list element that contains \<^verbatim>\<open>:\<close> is neither rejected nor
  escaped: the one-element list \<^verbatim>\<open>["a:b"]\<close> and the two-element list \<^verbatim>\<open>["a", "b"]\<close> are
  both exported as \<^verbatim>\<open>a:b\<close>, which splits into two pieces. The empty list and the list
  with one empty string are not told apart either.
\<close>

theorem list_export_counterexample:
  "getOptsMap \<lparr>struct_fields = [(''hiddenfiles'', RSlice [RString ''a:b''])], user = Map.empty\<rparr> []
     ''lf_hiddenfiles'' = Some ''a:b''
   \<and> getOptsMap \<lparr>struct_fields = [(''hiddenfiles'', RSlice [RString ''a'', RString ''b''])],
        user = Map.empty\<rparr> [] ''lf_hiddenfiles'' = Some ''a:b''
   \<and> Split ''a:b'' (CHR '':'') = [''a'', ''b'']
   \<and> fieldToString (RSlice []) = fieldToString (RSlice [RString []])"
  by (simp add: getOptsMap_def Split_def)

text \<open>
  C1, amended. A list is exported as the encodings of its elements joined by \<^verbatim>\<open>:\<close>,
  each element passed through as it is. The exported string splits on \<^verbatim>\<open>:\<close> into the
  encodings of the original elements whenever the list is not empty and no encoding
  contains \<^verbatim>\<open>:\<close>; a non-empty list of integers always does, and \<^verbatim>\<open>Atoi\<close> reads each
  piece back as the integer it came from.
\<close>

theorem list_export_resplit:
  "fieldToString (RSlice es) = Join (map fieldToString es) '':''
   \<and> (es \<noteq> [] \<and> (\<forall>e\<in>set es. CHR '':'' \<notin> set (fieldToString e))
        \<longrightarrow> Split (fieldToString (RSlice es)) (CHR '':'') = map fieldToString es)
   \<and> Split (fieldToString (RSlice (map RInt (n # ns)))) (CHR '':'') = map Itoa (n # ns)
   \<and> map Atoi (map Itoa (n # ns)) = map (\<lambda>i. (i, None)) (n # ns)"
proof (intro conjI impI)
  show "map Atoi (map Itoa (n # ns)) = map (\<lambda>i. (i, None)) (n # ns)"
    by (simp add: Atoi_Itoa)
next
  show "fieldToString (RSlice es) = Join (map fieldToString es) '':''"
    by (rule fieldToString_slice)
next
  assume a: "es \<noteq> [] \<and> (\<forall>e\<in>set es. CHR '':'' \<notin> set (fieldToString e))"
  then have "map fieldToString es \<noteq> []" and "\<forall>w\<in>set (map fieldToString es). CHR '':'' \<notin> set w"
    by simp_all
  then show "Split (fieldToString (RSlice es)) (CHR '':'') = map fieldToString es"
    unfolding fieldToString_slice by (rule Split_Join)
next
  have e: "map fieldToString (map RInt (n # ns)) = map Itoa (n # ns)"
    by (simp add: comp_def)
  have nocolon: "\<forall>w\<in>set (map Itoa (n # ns)). CHR '':'' \<notin> set w"
    by (auto simp: Itoa_no_colon)
  have ne: "map Itoa (n # ns) \<noteq> []" by simp
  show "Split (fieldToString (RSlice (map RInt (n # ns)))) (CHR '':'') = map Itoa (n # ns)"
    unfolding fieldToString_slice e using ne nocolon by (rule Split_Join)
qed

text \<open>The amended statement of C1 at the list \<^verbatim>\<open>["a", "b"]\<close>.\<close>

theorem list_export_resplit_witness:
  "[RString ''a'', RString ''b''] \<noteq> []
   \<and> CHR '':'' \<notin> set (fieldToString (RString ''a''))
   \<and> CHR '':'' \<notin> set (fieldToString (RString ''b''))
   \<and> fieldToString (RSlice [RString ''a'', RString ''b'']) = ''a:b''
   \<and> Split ''a:b'' (CHR '':'') = [''a'', ''b'']"
  using list_export_resplit [of "[RString ''a'', RString ''b'']" 0 "[]"] by simp

section \<open>Order and determinism of the export\<close>

text \<open>
  C2, as stated, fails. \<^verbatim>\<open>exportOpts\<close> sets the entries in the order in which \<^verbatim>\<open>range\<close>
  walks the map that \<^verbatim>\<open>getOptsMap\<close> built, and that order is not fixed: for a struct with
  \<^verbatim>\<open>tabstop\<close> and \<^verbatim>\<open>hidden\<close> both sequences of the two entries are possible, so two runs
  need not produce the same sequence.
\<close>

theorem export_sequence_counterexample:
  "go_range (getOptsMap \<lparr>struct_fields = [(''tabstop'', RInt 8), (''hidden'', RBool False)],
               user = Map.empty\<rparr> [])
            [(''lf_tabstop'', ''8''), (''lf_hidden'', ''false'')]
   \<and> go_range (getOptsMap \<lparr>struct_fields = [(''tabstop'', RInt 8), (''hidden'', RBool False)],
               user = Map.empty\<rparr> [])
            [(''lf_hidden'', ''false''), (''lf_tabstop'', ''8'')]
   \<and> [(''lf_tabstop'', ''8''), (''lf_hidden'', ''false'')]
       \<noteq> [(''lf_hidden'', ''false''), (''lf_tabstop'', ''8'')]"
  by (simp add: go_range_def getOptsMap_def FormatBool_def Itoa_eval fun_eq_iff)

text \<open>
  C2, amended. \<^verbatim>\<open>getOptsMap\<close> walks the struct fields in declaration order. Whatever the
  orders in which the user options and the resulting map are walked, two runs of export
  build the same map, set the same entries (as a set, and as many of them), and leave the
  same environment. Every field other than \<^verbatim>\<open>nkeys\<close>, \<^verbatim>\<open>vkeys\<close>, \<^verbatim>\<open>cmdkeys\<close>, \<^verbatim>\<open>cmds\<close> and
  \<^verbatim>\<open>user\<close> has one entry, named \<^verbatim>\<open>lf_\<close> followed by the field name, with the field's
  encoding as its value (field names being distinct, and the field not named like the
  entry of a user option).
\<close>

theorem export_deterministic:
  assumes "go_range (user g) u1" and "go_range (user g) u2"
    and "go_range (getOptsMap g u1) k1" and "go_range (getOptsMap g u2) k2"
  shows "getOptsMap g u1 = getOptsMap g u2
       \<and> set k1 = set k2 \<and> length k1 = length k2
       \<and> exportOpts k1 env = exportOpts k2 env
       \<and> (\<forall>f v. distinct (map fst (struct_fields g)) \<and> (f, v) \<in> set (struct_fields g)
                 \<and> f \<notin> {''nkeys'', ''vkeys'', ''cmdkeys'', ''cmds'', ''user''}
                 \<and> (\<forall>key\<in>dom (user g). f \<noteq> ''user_'' @ key)
            \<longrightarrow> getOptsMap g u1 (''lf_'' @ f) = Some (fieldToString v))"
proof -
  have same: "getOptsMap g u1 = getOptsMap g u2"
    unfolding getOptsMap_def using assms(1,2) by (rule getOptsMap_loop_order)
  have r2: "go_range (getOptsMap g u1) k2" using assms(4) same by simp
  have sets: "set k1 = set k2"
    using go_range_set [OF assms(3)] go_range_set [OF r2] by simp
  have len: "length k1 = length k2"
    using assms(3) r2 by (rule go_range_length)
  have env: "exportOpts k1 env = exportOpts k2 env"
    using assms(3) r2 by (rule exportOpts_order)
  have entry: "getOptsMap g u1 (''lf_'' @ f) = Some (fieldToString v)"
    if d: "distinct (map fst (struct_fields g))" and m: "(f, v) \<in> set (struct_fields g)"
      and n: "f \<notin> {''nkeys'', ''vkeys'', ''cmdkeys'', ''cmds'', ''user''}"
      and u: "\<forall>key\<in>dom (user g). f \<noteq> ''user_'' @ key" for f v
  proof -
    have "\<not> skipped f" and "f \<noteq> ''user''" using n by (simp_all add: skipped_def)
    moreover have "opt_name f \<notin> user_name ` fst ` set u1"
      using u go_range_dom [OF assms(1)] by (auto simp: opt_name_user_name)
    ultimately show ?thesis
      unfolding getOptsMap_def opt_name_alt using d m by (intro getOptsMap_loop_field)
  qed
  show ?thesis
  proof (intro conjI allI impI)
    fix f v
    assume "distinct (map fst (struct_fields g)) \<and> (f, v) \<in> set (struct_fields g)
                 \<and> f \<notin> {''nkeys'', ''vkeys'', ''cmdkeys'', ''cmds'', ''user''}
                 \<and> (\<forall>key\<in>dom (user g). f \<noteq> ''user_'' @ key)"
    then show "getOptsMap g u1 (''lf_'' @ f) = Some (fieldToString v)"
      by (elim conjE) (rule entry)
  qed (rule same sets len env)+
qed

text \<open>The amended statement of C2 for a struct with \<^verbatim>\<open>tabstop\<close> and \<^verbatim>\<open>hidden\<close>, walked in the
  two possible orders.\<close>

theorem export_deterministic_witness:
  "go_range (user \<lparr>struct_fields = [(''tabstop'', RInt 8), (''hidden'', RBool False)],
               user = Map.empty\<rparr>) []
   \<and> go_range (getOptsMap \<lparr>struct_fields = [(''tabstop'', RInt 8), (''hidden'', RBool False)],
               user = Map.empty\<rparr> [])
        [(''lf_tabstop'', ''8''), (''lf_hidden'', ''false'')]
   \<and> go_range (getOptsMap \<lparr>struct_fields = [(''tabstop'', RInt 8), (''hidden'', RBool False)],
               user = Map.empty\<rparr> [])
        [(''lf_hidden'', ''false''), (''lf_tabstop'', ''8'')]
   \<and> exportOpts [(''lf_tabstop'', ''8''), (''lf_hidden'', ''false'')] Map.empty
     = exportOpts [(''lf_hidden'', ''false''), (''lf_tabstop'', ''8'')] Map.empty
   \<and> getOptsMap \<lparr>struct_fields = [(''tabstop'', RInt 8), (''hidden'', RBool False)],
               user = Map.empty\<rparr> [] (''lf_'' @ ''tabstop'') = Some (fieldToString (RInt 8))"
proof -
  let ?g = "\<lparr>struct_fields = [(''tabstop'', RInt 8), (''hidden'', RBool False)], user = Map.empty\<rparr>"
  have u: "go_range (user ?g) []" by (simp add: go_range_def)
  have k1: "go_range (getOptsMap ?g []) [(''lf_tabstop'', ''8''), (''lf_hidden'', ''false'')]"
    by (simp add: go_range_def getOptsMap_def FormatBool_def Itoa_eval fun_eq_iff)
  have k2: "go_range (getOptsMap ?g []) [(''lf_hidden'', ''false''), (''lf_tabstop'', ''8'')]"
    by (simp add: go_range_def getOptsMap_def FormatBool_def Itoa_eval fun_eq_iff)
  have f: "distinct (map fst (struct_fields ?g)) \<and> (''tabstop'', RInt 8) \<in> set (struct_fields ?g)
         \<and> ''tabstop'' \<notin> {''nkeys'', ''vkeys'', ''cmdkeys'', ''cmds'', ''user''}
         \<and> (\<forall>key\<in>dom (user ?g). ''tabstop'' \<noteq> ''user_'' @ key)"
    by simp
  note t = export_deterministic [OF u u k1 k2, of Map.empty]
  have e: "exportOpts [(''lf_tabstop'', ''8''), (''lf_hidden'', ''false'')] Map.empty
         = exportOpts [(''lf_hidden'', ''false''), (''lf_tabstop'', ''8'')] Map.empty"
    by (rule t [THEN conjunct2, THEN conjunct2, THEN conjunct2, THEN conjunct1])
  have n: "getOptsMap ?g [] (''lf_'' @ ''tabstop'') = Some (fieldToString (RInt 8))"
    by (rule t [THEN conjunct2, THEN conjunct2, THEN conjunct2, THEN conjunct2, rule_format, OF f])
  show ?thesis by (intro conjI) (rule u k1 k2 e n)+
qed

section \<open>The exported entries of the scenario\<close>

text \<open>
  C3. For the configuration with \<^verbatim>\<open>tabstop\<close> 8, \<^verbatim>\<open>hidden\<close> false and \<^verbatim>\<open>ratios\<close>
  [1, 2, 3], export into an empty environment leaves exactly the entries
  \<^verbatim>\<open>lf_tabstop=8\<close>, \<^verbatim>\<open>lf_hidden=false\<close> and \<^verbatim>\<open>lf_ratios=1:2:3\<close>, in whichever order
  the map of options is walked; and reading the three strings back by type
  (\<^verbatim>\<open>Atoi\<close>, \<^verbatim>\<open>ParseBool\<close>, \<^verbatim>\<open>Split\<close> on \<^verbatim>\<open>:\<close> and \<^verbatim>\<open>Atoi\<close> of each piece) gives back
  8, false and [1, 2, 3] without an error.
\<close>

theorem scenario_export_roundtrip:
  assumes "go_range (getOptsMap \<lparr>struct_fields = [(''tabstop'', RInt 8), (''hidden'', RBool False),
       (''ratios'', RSlice [RInt 1, RInt 2, RInt 3])], user = Map.empty\<rparr> []) kvs"
  shows "exportOpts kvs Map.empty
           = [''lf_tabstop'' \<mapsto> ''8'', ''lf_hidden'' \<mapsto> ''false'', ''lf_ratios'' \<mapsto> ''1:2:3'']
       \<and> Atoi ''8'' = (8, None)
       \<and> ParseBool ''false'' = Some False
       \<and> map Atoi (Split ''1:2:3'' (CHR '':'')) = [(1, None), (2, None), (3, None)]"
proof -
  let ?m = "[''lf_tabstop'' \<mapsto> ''8'', ''lf_hidden'' \<mapsto> ''false'', ''lf_ratios'' \<mapsto> ''1:2:3'']"
  have r: "go_range ?m kvs" using assms unfolding scenario_opts .
  have ok: "setenv_ok k v" if "?m k = Some v" for k v
    using that by (auto simp: setenv_ok_def split: if_splits)
  have "exportOpts kvs Map.empty = Map.empty ++ ?m"
    using r ok by (rule exportOpts_eq)
  then have "exportOpts kvs Map.empty = ?m" by simp
  moreover have "Atoi ''8'' = (8, None)" by (simp add: Atoi_eval)
  moreover have "ParseBool ''false'' = Some False" by (simp add: ParseBool_def)
  moreover have "map Atoi (Split ''1:2:3'' (CHR '':'')) = [(1, None), (2, None), (3, None)]"
    by (simp add: Split_def Atoi_eval)
  ultimately show ?thesis by blast
qed

text \<open>C3 for one order in which the three entries can come.\<close>

theorem scenario_export_roundtrip_witness:
  "go_range (getOptsMap \<lparr>struct_fields = [(''tabstop'', RInt 8), (''hidden'', RBool False),
       (''ratios'', RSlice [RInt 1, RInt 2, RInt 3])], user = Map.empty\<rparr> [])
     [(''lf_ratios'', ''1:2:3''), (''lf_hidden'', ''false''), (''lf_tabstop'', ''8'')]
   \<and> exportOpts [(''lf_ratios'', ''1:2:3''), (''lf_hidden'', ''false''), (''lf_tabstop'', ''8'')] Map.empty
       = [''lf_tabstop'' \<mapsto> ''8'', ''lf_hidden'' \<mapsto> ''false'', ''lf_ratios'' \<mapsto> ''1:2:3'']"
proof -
  have r: "go_range (getOptsMap \<lparr>struct_fields = [(''tabstop'', RInt 8), (''hidden'', RBool False),
       (''ratios'', RSlice [RInt 1, RInt 2, RInt 3])], user = Map.empty\<rparr> [])
     [(''lf_ratios'', ''1:2:3''), (''lf_hidden'', ''false''), (''lf_tabstop'', ''8'')]"
    unfolding scenario_opts by (simp add: go_range_def)
  show ?thesis using r scenario_export_roundtrip [OF r] by blast
qed

section \<open>Removal of the socket file\<close>



section \<open>Exit handoff\<close>





section \<open>Exit status 2\<close>

text \<open>
  C7, as stated, fails. With \<^verbatim>\<open>-doc\<close> and two positional arguments the documentation is
  printed and the process ends with status 0: the positional arguments are counted in
  the client only.
\<close>

theorem exit_status_two_counterexample:
  "1 < length (args \<lparr>showDoc = True, showVersion = False, serverMode = False, singleMode = False,
        remoteCmd = [], cpuprofile = [], memprofile = [], logPath = [], args = [''a'', ''b'']\<rparr>)
   \<and> exit_status (fst (main
        \<lparr>gDefaultSocketProt = ''unix'', gDefaultSocketPath = ''/run/user/1000/lf.sock'',
          argv0 = ''lf'', pid = 4242, opener = ''xdg-open'', editor = ''vi'', pager = ''less'',
          shell = ''sh'', abs_ok = True, cpu_create_ok = True, cpu_start_ok = True,
          remote_ok = True, mem_create_ok = True, mem_write_ok = True\<rparr>
        (Parsed \<lparr>showDoc = True, showVersion = False, serverMode = False, singleMode = False,
          remoteCmd = [], cpuprofile = [], memprofile = [], logPath = [], args = [''a'', ''b'']\<rparr>)
        \<lparr>files = {}, stat_err = {}, listening = {}, can_spawn = True, cwd = Some ''/'',
          environ = Map.empty, events = []\<rparr>)) = 0"
  by (simp add: main_def dispatch_def write_memprofile_def exit_status_def)

text \<open>
  C7, amended. \<^verbatim>\<open>main\<close> itself ends the process with status 2 exactly in these cases:
  \<^verbatim>\<open>flag.Parse\<close> rejects the command line; or the flags are accepted, start-up has not
  already stopped with \<^verbatim>\<open>log.Fatalf\<close>, the mode is the client (none of \<^verbatim>\<open>-doc\<close>,
  \<^verbatim>\<open>-version\<close>, \<^verbatim>\<open>-remote\<close>, \<^verbatim>\<open>-server\<close>), and either more than one positional argument
  is given, or none is given and the working directory cannot be read.
\<close>

theorem exit_status_two:
  "fst (main b c w) = Exited 2 \<longleftrightarrow>
     c = BadFlags
     \<or> (\<exists>f. c = Parsed f \<and> \<not> startup_fatal b f \<and> client_mode f
           \<and> (1 < length (args f) \<or> (args f = [] \<and> cwd w = None)))"
proof (cases c)
  case BadFlags
  then show ?thesis by (simp add: main_def)
next
  case HelpFlag
  then show ?thesis by (simp add: main_def)
next
  case (Parsed f)
  then show ?thesis by (simp add: main_Parsed)
qed

text \<open>C7, amended, for a client started with two positional arguments.\<close>

theorem exit_status_two_witness:
  "\<not> startup_fatal
        \<lparr>gDefaultSocketProt = ''unix'', gDefaultSocketPath = ''/run/user/1000/lf.sock'',
          argv0 = ''lf'', pid = 4242, opener = ''xdg-open'', editor = ''vi'', pager = ''less'',
          shell = ''sh'', abs_ok = True, cpu_create_ok = True, cpu_start_ok = True,
          remote_ok = True, mem_create_ok = True, mem_write_ok = True\<rparr>
        \<lparr>showDoc = False, showVersion = False, serverMode = False, singleMode = False,
          remoteCmd = [], cpuprofile = [], memprofile = [], logPath = [], args = [''a'', ''b'']\<rparr>
   \<and> client_mode \<lparr>showDoc = False, showVersion = False, serverMode = False, singleMode = False,
          remoteCmd = [], cpuprofile = [], memprofile = [], logPath = [], args = [''a'', ''b'']\<rparr>
   \<and> fst (main
        \<lparr>gDefaultSocketProt = ''unix'', gDefaultSocketPath = ''/run/user/1000/lf.sock'',
          argv0 = ''lf'', pid = 4242, opener = ''xdg-open'', editor = ''vi'', pager = ''less'',
          shell = ''sh'', abs_ok = True, cpu_create_ok = True, cpu_start_ok = True,
          remote_ok = True, mem_create_ok = True, mem_write_ok = True\<rparr>
        (Parsed \<lparr>showDoc = False, showVersion = False, serverMode = False, singleMode = False,
          remoteCmd = [], cpuprofile = [], memprofile = [], logPath = [], args = [''a'', ''b'']\<rparr>)
        \<lparr>files = {}, stat_err = {}, listening = {}, can_spawn = True, cwd = Some ''/'',
          environ = Map.empty, events = []\<rparr>) = Exited 2"
proof -
  let ?b = "\<lparr>gDefaultSocketProt = ''unix'', gDefaultSocketPath = ''/run/user/1000/lf.sock'',
          argv0 = ''lf'', pid = 4242, opener = ''xdg-open'', editor = ''vi'', pager = ''less'',
          shell = ''sh'', abs_ok = True, cpu_create_ok = True, cpu_start_ok = True,
          remote_ok = True, mem_create_ok = True, mem_write_ok = True\<rparr>"
  let ?f = "\<lparr>showDoc = False, showVersion = False, serverMode = False, singleMode = False,
          remoteCmd = [], cpuprofile = [], memprofile = [], logPath = [], args = [''a'', ''b'']\<rparr>"
  let ?w = "\<lparr>files = {}, stat_err = {}, listening = {}, can_spawn = True, cwd = Some ''/'',
          environ = Map.empty, events = []\<rparr>"
  have nf: "\<not> startup_fatal ?b ?f" by (simp add: startup_fatal_def)
  have cm: "client_mode ?f" by (simp add: client_mode_def)
  have two: "1 < length (args ?f)" by simp
  have "\<exists>f. Parsed ?f = Parsed f \<and> \<not> startup_fatal ?b f \<and> client_mode f
           \<and> (1 < length (args f) \<or> (args f = [] \<and> cwd ?w = None))"
    using nf cm two by blast
  then have "fst (main ?b (Parsed ?f) ?w) = Exited 2"
    using exit_status_two [of ?b "Parsed ?f" ?w] by blast
  then show ?thesis using nf cm by blast
qed

section \<open>The nesting level\<close>

text \<open>
  C8, as stated, fails at the largest \<^verbatim>\<open>int\<close>: the inherited value
  \<^verbatim>\<open>9223372036854775807\<close> is accepted by \<^verbatim>\<open>Atoi\<close> as that integer, \<^verbatim>\<open>level++\<close> wraps
  around, and \<^verbatim>\<open>LF_LEVEL\<close> is set to \<^verbatim>\<open>-9223372036854775808\<close>.
\<close>

theorem level_overflow_counterexample:
  "Atoi ''9223372036854775807'' = (9223372036854775807, None)
   \<and> sint (9223372036854775807 :: go_int) = 9223372036854775807
   \<and> environ (exportEnvVars
        \<lparr>gClientID = 4242, envOpener = ''xdg-open'', envEditor = ''vi'', envPager = ''less'',
          envShell = ''sh'', envLevel = init_envLevel [''LF_LEVEL'' \<mapsto> ''9223372036854775807'']\<rparr>
        \<lparr>files = {}, stat_err = {}, listening = {}, can_spawn = True, cwd = Some ''/'',
          environ = [''LF_LEVEL'' \<mapsto> ''9223372036854775807''], events = []\<rparr>) ''LF_LEVEL''
     = Some ''-9223372036854775808''"
proof -
  have a: "Atoi ''9223372036854775807'' = (9223372036854775807, None)"
    by (simp add: Atoi_eval)
  have i: "init_envLevel [''LF_LEVEL'' \<mapsto> ''9223372036854775807''] = ''9223372036854775807''"
    by (simp add: init_envLevel_def Getenv_def)
  have w: "Itoa 9223372036854775808 = ''-9223372036854775808''"
    by (simp add: Itoa_eval)
  show ?thesis
    unfolding exportEnvVars_level by (simp add: a i w)
qed

text \<open>
  C8, amended. For every inherited \<^verbatim>\<open>LF_LEVEL\<close> that \<^verbatim>\<open>Atoi\<close> accepts as an integer \<open>n\<close>
  below the largest \<^verbatim>\<open>int\<close>, export sets \<^verbatim>\<open>LF_LEVEL\<close> to the decimal form of \<open>n + 1\<close>; when
  \<^verbatim>\<open>LF_LEVEL\<close> is not set, the level counts as 0 and export sets \<^verbatim>\<open>LF_LEVEL\<close> to \<^verbatim>\<open>1\<close>.
\<close>

theorem level_incremented:
  "(env0 ''LF_LEVEL'' = Some s \<and> Atoi s = (n, None) \<and> sint n < 2 ^ 63 - 1
      \<longrightarrow> environ (exportEnvVars (g\<lparr>envLevel := init_envLevel env0\<rparr>) w) ''LF_LEVEL''
            = Some (Itoa (n + 1))
          \<and> sint (n + 1) = sint n + 1)
   \<and> (env0 ''LF_LEVEL'' = None
      \<longrightarrow> environ (exportEnvVars (g\<lparr>envLevel := init_envLevel env0\<rparr>) w) ''LF_LEVEL''
            = Some ''1'')"
proof (intro conjI impI)
  assume a: "env0 ''LF_LEVEL'' = Some s \<and> Atoi s = (n, None) \<and> sint n < 2 ^ 63 - 1"
  then have "s \<noteq> []" using Atoi_empty by auto
  then have "init_envLevel env0 = s" using a by (simp add: init_envLevel_Some)
  then show "environ (exportEnvVars (g\<lparr>envLevel := init_envLevel env0\<rparr>) w) ''LF_LEVEL''
            = Some (Itoa (n + 1))"
    using a by (simp add: exportEnvVars_level)
  show "sint (n + 1) = sint n + 1" using a by (simp add: go_int_succ)
next
  assume "env0 ''LF_LEVEL'' = None"
  then have "init_envLevel env0 = ''0''" by (rule init_envLevel_None)
  moreover have "Atoi ''0'' = (0, None)" by (simp add: Atoi_eval)
  moreover have "Itoa 1 = ''1''" by (simp add: Itoa_eval)
  ultimately show "environ (exportEnvVars (g\<lparr>envLevel := init_envLevel env0\<rparr>) w) ''LF_LEVEL''
            = Some ''1''"
    by (simp add: exportEnvVars_level)
qed

text \<open>C8, amended, for a session started with \<^verbatim>\<open>LF_LEVEL=3\<close> and for a top-level session.\<close>

theorem level_incremented_witness:
  "[''LF_LEVEL'' \<mapsto> ''3''] ''LF_LEVEL'' = Some ''3''
   \<and> Atoi ''3'' = (3, None)
   \<and> sint (3 :: go_int) < 2 ^ 63 - 1
   \<and> environ (exportEnvVars
        (\<lparr>gClientID = 4242, envOpener = ''xdg-open'', envEditor = ''vi'', envPager = ''less'',
          envShell = ''sh'', envLevel = []\<rparr>\<lparr>envLevel := init_envLevel [''LF_LEVEL'' \<mapsto> ''3'']\<rparr>)
        \<lparr>files = {}, stat_err = {}, listening = {}, can_spawn = True, cwd = Some ''/'',
          environ = [''LF_LEVEL'' \<mapsto> ''3''], events = []\<rparr>) ''LF_LEVEL'' = Some ''4''
   \<and> (Map.empty :: strmap) ''LF_LEVEL'' = None
   \<and> environ (exportEnvVars
        (\<lparr>gClientID = 4242, envOpener = ''xdg-open'', envEditor = ''vi'', envPager = ''less'',
          envShell = ''sh'', envLevel = []\<rparr>\<lparr>envLevel := init_envLevel Map.empty\<rparr>)
        \<lparr>files = {}, stat_err = {}, listening = {}, can_spawn = True, cwd = Some ''/'',
          environ = Map.empty, events = []\<rparr>) ''LF_LEVEL'' = Some ''1''"
proof -
  let ?g = "\<lparr>gClientID = 4242, envOpener = ''xdg-open'', envEditor = ''vi'', envPager = ''less'',
          envShell = ''sh'', envLevel = []\<rparr>"
  let ?w3 = "\<lparr>files = {}, stat_err = {}, listening = {}, can_spawn = True, cwd = Some ''/'',
          environ = [''LF_LEVEL'' \<mapsto> ''3''], events = []\<rparr>"
  let ?w0 = "\<lparr>files = {}, stat_err = {}, listening = {}, can_spawn = True, cwd = Some ''/'',
          environ = Map.empty, events = []\<rparr>"
  have e: "[''LF_LEVEL'' \<mapsto> ''3''] ''LF_LEVEL'' = Some ''3''" by simp
  have a: "Atoi ''3'' = (3, None)" by (simp add: Atoi_eval)
  have s: "sint (3 :: go_int) < 2 ^ 63 - 1" by simp
  have n: "(Map.empty :: strmap) ''LF_LEVEL'' = None" by simp
  have i: "Itoa (3 + 1) = ''4''" by (simp add: Itoa_eval)
  note t1 = level_incremented [of "[''LF_LEVEL'' \<mapsto> ''3'']" "''3''" 3 ?g ?w3,
      THEN conjunct1, THEN mp, OF conjI [OF e conjI [OF a s]], THEN conjunct1]
  note t2 = level_incremented [of Map.empty "[]" 0 ?g ?w0, THEN conjunct2, THEN mp, OF n]
  have r1: "environ (exportEnvVars (?g\<lparr>envLevel := init_envLevel [''LF_LEVEL'' \<mapsto> ''3'']\<rparr>) ?w3)
      ''LF_LEVEL'' = Some ''4''"
    using t1 unfolding i .
  show ?thesis by (intro conjI) (rule e a s r1 n t2)+
qed

section \<open>The absent socket file\<close>

text \<open>
  C9. For a unix-domain endpoint whose socket file \<^verbatim>\<open>os.Stat\<close> reports absent, the
  endpoint is \<open>Dead\<close> in the specification's classification, and \<^verbatim>\<open>checkServer\<close> does
  what \<^verbatim>\<open>startServer\<close> does and changes nothing in the file system: the directory
  entries are the same, the path is still absent, and the only thing done is to start the
  server (with a log line when that fails), without a connect and without a removal. Whenever the path has no directory
  entry, the entries are the same afterwards.
\<close>

theorem absent_socket_is_dead:
  "(prot = ''unix'' \<and> os_Stat w path = StatNotExist
      \<longrightarrow> probe_spec prot path w = Dead
        \<and> checkServer prot path a w = startServer a w
        \<and> files (checkServer prot path a w) = files w
        \<and> stat_err (checkServer prot path a w) = stat_err w
        \<and> os_Stat (checkServer prot path a w) path = StatNotExist
        \<and> new_events w (checkServer prot path a w)
            = CmdStart [a, ''-server''] # (if can_spawn w then [] else [Logged ''starting server'']))
   \<and> (path \<notin> files w \<longrightarrow> files (checkServer prot path a w) = files w)"
proof (intro conjI impI)
  assume h: "prot = ''unix'' \<and> os_Stat w path = StatNotExist"
  then have p: "prot = ''unix''" and st: "os_Stat w path = StatNotExist" by blast+
  have c: "checkServer prot path a w = startServer a w"
    by (rule checkServer_absent [OF p st])
  show "probe_spec prot path w = Dead" using h by (simp add: probe_spec_def)
  show "checkServer prot path a w = startServer a w" by (rule c)
  show "files (checkServer prot path a w) = files w" unfolding c by simp
  show "stat_err (checkServer prot path a w) = stat_err w" unfolding c by simp
  show "os_Stat (checkServer prot path a w) path = StatNotExist"
    unfolding c using h by (simp add: os_Stat_def split: if_splits)
  show "new_events w (checkServer prot path a w)
            = CmdStart [a, ''-server''] # (if can_spawn w then [] else [Logged ''starting server''])"
    unfolding c by (simp add: new_events_def)
next
  assume "path \<notin> files w"
  then show "files (checkServer prot path a w) = files w"
    by (cases "probe_spec prot path w") (simp_all add: checkServer_probe)
qed

text \<open>C9 for a missing socket file beside another file.\<close>

theorem absent_socket_is_dead_witness:
  "os_Stat \<lparr>files = {''/tmp/other''}, stat_err = {}, listening = {}, can_spawn = True,
       cwd = Some ''/'', environ = Map.empty, events = []\<rparr> ''/run/user/1000/lf.sock'' = StatNotExist
   \<and> ''/run/user/1000/lf.sock'' \<notin> files \<lparr>files = {''/tmp/other''}, stat_err = {}, listening = {},
       can_spawn = True, cwd = Some ''/'', environ = Map.empty, events = []\<rparr>
   \<and> probe_spec ''unix'' ''/run/user/1000/lf.sock'' \<lparr>files = {''/tmp/other''}, stat_err = {},
       listening = {}, can_spawn = True, cwd = Some ''/'', environ = Map.empty, events = []\<rparr> = Dead
   \<and> files (checkServer ''unix'' ''/run/user/1000/lf.sock'' ''lf''
        \<lparr>files = {''/tmp/other''}, stat_err = {}, listening = {}, can_spawn = True,
          cwd = Some ''/'', environ = Map.empty, events = []\<rparr>) = {''/tmp/other''}
   \<and> events (checkServer ''unix'' ''/run/user/1000/lf.sock'' ''lf''
        \<lparr>files = {''/tmp/other''}, stat_err = {}, listening = {}, can_spawn = True,
          cwd = Some ''/'', environ = Map.empty, events = []\<rparr>) = [CmdStart [''lf'', ''-server'']]"
proof -
  let ?w = "\<lparr>files = {''/tmp/other''}, stat_err = {}, listening = {}, can_spawn = True,
       cwd = Some ''/'', environ = Map.empty, events = []\<rparr>"
  let ?p = "''/run/user/1000/lf.sock''"
  have st: "os_Stat ?w ?p = StatNotExist" by (simp add: os_Stat_def)
  have nf: "?p \<notin> files ?w" by simp
  note s1 = absent_socket_is_dead [of "''unix''" ?w ?p "''lf''",
      THEN conjunct1, THEN mp, OF conjI [OF refl st]]
  note s2 = absent_socket_is_dead [of "''unix''" ?w ?p "''lf''", THEN conjunct2, THEN mp, OF nf]
  have a: "probe_spec ''unix'' ?p ?w = Dead" by (rule s1 [THEN conjunct1])
  have b: "files (checkServer ''unix'' ?p ''lf'' ?w) = {''/tmp/other''}"
    using s2 by simp
  have c: "events (checkServer ''unix'' ?p ''lf'' ?w) = [CmdStart [''lf'', ''-server'']]"
    using s1 [THEN conjunct2, THEN conjunct2, THEN conjunct2, THEN conjunct2, THEN conjunct2]
    by (simp add: new_events_def)
  show ?thesis by (intro conjI) (rule st nf a b c)+
qed

section \<open>Maps in the option struct\<close>



end
